theory Spec2Isabelle
  imports Complex_Main "HOL-Library.Monad_Syntax" "HOL-Library.Multiset" "HOL-Library.Log_Nat"
begin

section \<open>The fuzzy matching and ranking engine of main.py\<close>

text \<open>
  The three functions \<^verbatim>\<open>levenshtein_distance\<close>, \<^verbatim>\<open>fuzzy_match\<close> and
  \<^verbatim>\<open>fuzzy_search\<close> of \<^verbatim>\<open>src/main.py\<close> are embedded as HOL functions.

  Conventions of the embedding:
  \<^item> A Python \<^verbatim>\<open>str\<close> is a \<open>string\<close>; a \<open>char\<close> stands for the code point with
    the same number, so the model covers the code points below 256.
  \<^item> A Python exception is the value \<open>None\<close>: \<^verbatim>\<open>IndexError\<close> of a list read out
    of range, \<^verbatim>\<open>ZeroDivisionError\<close> of a division by zero. A function that can raise
    returns an \<open>option\<close>.
  \<^item> Python's \<^verbatim>\<open>int\<close> values here are lengths and distances, never negative and never
    subtracted: they are \<open>nat\<close>.
  \<^item> A Python \<^verbatim>\<open>float\<close> is the \<open>real\<close> number it denotes. The scoring code is embedded
    twice. \<open>score_loop\<close>, \<open>fuzzy_match\<close>, \<open>total_score\<close> and \<open>fuzzy_search\<close> compute
    with exact quotients and products; they serve the properties rounding cannot change (the
    return statement taken, the range of a score, which groups are kept). The functions with
    the suffix \<open>_fp\<close> round the result of every float operation to the nearest double, ties
    to even, as the interpreter does; the value of a score and the order of the result are
    stated on them.
\<close>

subsection \<open>Python primitives\<close>

text \<open>\<^verbatim>\<open>xs[i]\<close> for \<open>i \<ge> 0\<close>, and \<^verbatim>\<open>xs[-1]\<close>; both raise \<^verbatim>\<open>IndexError\<close> out of range.\<close>

definition py_index :: "'a list \<Rightarrow> nat \<Rightarrow> 'a option" where
  "py_index xs i = (if i < length xs then Some (xs ! i) else None)"

definition py_last :: "'a list \<Rightarrow> 'a option" where
  "py_last xs = (if xs = [] then None else Some (last xs))"

text \<open>\<^verbatim>\<open>a / b\<close> on two \<^verbatim>\<open>int\<close>s: true division, \<^verbatim>\<open>ZeroDivisionError\<close> when \<open>b = 0\<close>.\<close>

definition py_truediv :: "nat \<Rightarrow> nat \<Rightarrow> real option" where
  "py_truediv a b = (if b = 0 then None else Some (real a / real b))"

text \<open>\<^verbatim>\<open>str.lower()\<close> on the code points below 256: the letters A-Z and the
  Latin-1 capitals (192-214 and 216-222) move up by 32, all else stays.\<close>

definition lower_char :: "char \<Rightarrow> char" where
  "lower_char c =
     (let n = (of_char c :: nat) in
      if (65 \<le> n \<and> n \<le> 90) \<or> (192 \<le> n \<and> n \<le> 214) \<or> (216 \<le> n \<and> n \<le> 222)
      then char_of (n + 32) else c)"

definition lower :: "string \<Rightarrow> string" where
  "lower s = map lower_char s"

text \<open>The characters \<^verbatim>\<open>str.split()\<close> (no argument) splits at, below 256.\<close>

definition isspace :: "char \<Rightarrow> bool" where
  "isspace c = ((of_char c :: nat) \<in> {9, 10, 11, 12, 13, 28, 29, 30, 31, 32, 133, 160})"

text \<open>\<^verbatim>\<open>text.split()\<close>: the maximal runs of non-whitespace characters, in order.
  The first argument is the token being read.\<close>

fun split_from :: "string \<Rightarrow> string \<Rightarrow> string list" where
  "split_from word [] = (if word = [] then [] else [word])"
| "split_from word (c # cs) =
     (if isspace c then (if word = [] then split_from [] cs else word # split_from [] cs)
      else split_from (word @ [c]) cs)"

definition split :: "string \<Rightarrow> string list" where
  "split text = split_from [] text"

text \<open>\<^verbatim>\<open>text.startswith(query)\<close> and \<^verbatim>\<open>query in text\<close> (substring test).\<close>

fun startswith :: "string \<Rightarrow> string \<Rightarrow> bool" where
  "startswith text [] = True"
| "startswith [] (q # query) = False"
| "startswith (c # text) (q # query) = (c = q \<and> startswith text query)"

fun str_in :: "string \<Rightarrow> string \<Rightarrow> bool" where
  "str_in query [] = (query = [])"
| "str_in query (c # text) = (startswith (c # text) query \<or> str_in query text)"

subsection \<open>levenshtein\_distance\<close>

text \<open>The inner loop \<^verbatim>\<open>for j, c2 in enumerate(s2)\<close>: it appends one entry to
  \<^verbatim>\<open>current_row\<close> per character of \<^verbatim>\<open>s2\<close>.\<close>

fun inner_loop :: "char \<Rightarrow> nat list \<Rightarrow> (nat \<times> char) list \<Rightarrow> nat list \<Rightarrow> nat list option" where
  "inner_loop c1 previous_row [] current_row = Some current_row"
| "inner_loop c1 previous_row ((j, c2) # rest) current_row = do {
     p1 \<leftarrow> py_index previous_row (j + 1);
     let insertions = p1 + 1;
     c0 \<leftarrow> py_index current_row j;
     let deletions = c0 + 1;
     p0 \<leftarrow> py_index previous_row j;
     let substitutions = p0 + (if c1 \<noteq> c2 then 1 else 0);
     inner_loop c1 previous_row rest
       (current_row @ [min insertions (min deletions substitutions)])
   }"

text \<open>The outer loop \<^verbatim>\<open>for i, c1 in enumerate(s1)\<close>: one row per character of \<^verbatim>\<open>s1\<close>.\<close>

fun outer_loop :: "(nat \<times> char) list \<Rightarrow> string \<Rightarrow> nat list \<Rightarrow> nat list option" where
  "outer_loop [] s2 previous_row = Some previous_row"
| "outer_loop ((i, c1) # rest) s2 previous_row = do {
     current_row \<leftarrow> inner_loop c1 previous_row (enumerate 0 s2) [i + 1];
     outer_loop rest s2 current_row
   }"

function levenshtein_distance :: "string \<Rightarrow> string \<Rightarrow> nat option" where
  "levenshtein_distance s1 s2 =
     (if length s1 < length s2 then levenshtein_distance s2 s1
      else if length s2 = 0 then Some (length s1)
      else do {
        previous_row \<leftarrow> outer_loop (enumerate 0 s1) s2 [0 ..< length s2 + 1];
        py_last previous_row
      })"
  by pat_completeness auto
termination
  by (relation "measure (\<lambda>(s1, s2). if length s1 < length s2 then 1 else 0)") auto

declare levenshtein_distance.simps [simp del]

subsection \<open>fuzzy\_match\<close>

text \<open>The second loop over the words, with \<^verbatim>\<open>max_score\<close> as the running maximum.\<close>

fun score_loop :: "string \<Rightarrow> string list \<Rightarrow> real \<Rightarrow> real option" where
  "score_loop query [] max_score = Some max_score"
| "score_loop query (word # words) max_score =
     (if length word \<ge> length query then do {
        distance \<leftarrow> levenshtein_distance query word;
        let max_len = max (length query) (length word);
        ratio \<leftarrow> py_truediv distance max_len;
        let score = 1 - ratio;
        score_loop query words (if score > max_score then score else max_score)
      }
      else score_loop query words max_score)"

text \<open>The \<^verbatim>\<open>return\<close> statement a call leaves through: line 45, line 50, line 62 or
  line 63.\<close>

datatype return_site = Whole_text | Token | Ratio | No_match

text \<open>\<^verbatim>\<open>fuzzy_match\<close>, with the return statement taken next to the value returned.\<close>

definition fuzzy_match_at :: "string \<Rightarrow> string \<Rightarrow> real \<Rightarrow> (return_site \<times> real) option" where
  "fuzzy_match_at query0 text0 threshold =
     (let query = lower query0; text = lower text0 in
      if str_in query text then Some (Whole_text, 1)
      else
        let words = split text in
        if list_ex (str_in query) words then Some (Token, 9 / 10)
        else do {
          max_score \<leftarrow> score_loop query words 0;
          if max_score \<ge> 1 - threshold then Some (Ratio, max_score)
          else Some (No_match, 0)
        })"

definition fuzzy_match :: "string \<Rightarrow> string \<Rightarrow> real \<Rightarrow> real option" where
  "fuzzy_match query text threshold = map_option snd (fuzzy_match_at query text threshold)"

subsection \<open>fuzzy\_search\<close>

text \<open>A group as \<^verbatim>\<open>fuzzy_search\<close> reads it: the name, the description (which may be
  \<^verbatim>\<open>None\<close>) and, standing for the rest of the row, its id.\<close>

record group =
  gid :: int
  name :: string
  description :: "string option"

text \<open>\<^verbatim>\<open>group.description or ""\<close>.\<close>

definition description_or_empty :: "group \<Rightarrow> string" where
  "description_or_empty g = (case description g of None \<Rightarrow> [] | Some d \<Rightarrow> d)"

text \<open>Lines 69 to 71: the score of one group.\<close>

definition total_score :: "string \<Rightarrow> real \<Rightarrow> group \<Rightarrow> real option" where
  "total_score query threshold g = do {
     name_score \<leftarrow> fuzzy_match query (name g) threshold;
     desc_score \<leftarrow> fuzzy_match query (description_or_empty g) threshold;
     Some (max name_score (desc_score * (7 / 10)))
   }"

text \<open>The loop over the groups, appending to \<^verbatim>\<open>results\<close>.\<close>

fun collect :: "string \<Rightarrow> real \<Rightarrow> group list \<Rightarrow> (group \<times> real) list \<Rightarrow> (group \<times> real) list option" where
  "collect query threshold [] results = Some results"
| "collect query threshold (g # groups) results = do {
     total \<leftarrow> total_score query threshold g;
     collect query threshold groups (if total > 0 then results @ [(g, total)] else results)
   }"

text \<open>\<^verbatim>\<open>results.sort(key=lambda x: x[1], reverse=True)\<close>: Python's sort is stable, and
  with \<^verbatim>\<open>reverse=True\<close> elements of equal key keep their order; that is the stable
  insertion sort on the negated key.\<close>

definition sort_reverse :: "(group \<times> real) list \<Rightarrow> (group \<times> real) list" where
  "sort_reverse results = sort_key (\<lambda>x. - snd x) results"

definition fuzzy_search :: "string \<Rightarrow> group list \<Rightarrow> real \<Rightarrow> group list option" where
  "fuzzy_search query groups threshold = do {
     results \<leftarrow> collect query threshold groups [];
     Some (map fst (sort_reverse results))
   }"

subsection \<open>Rounding to double precision\<close>

text \<open>The nearest integer, a tie going to the even one.\<close>

definition round_even :: "real \<Rightarrow> int" where
  "round_even y =
     (let f = \<lfloor>y\<rfloor>; r = y - of_int f in
      if r < 1 / 2 then f else if 1 / 2 < r then f + 1 else if even f then f else f + 1)"

text \<open>The binary exponent of \<open>x > 0\<close>: the \<open>e\<close> with \<open>2 powi e \<le> x < 2 powi (e + 1)\<close>; and
  the exponent a double stores for it, which does not go below that of the subnormal numbers.\<close>

definition bexp :: "real \<Rightarrow> int" where
  "bexp x = (if 1 \<le> x then bitlen \<lfloor>x\<rfloor> - 1 else - int (ceillog2 (nat \<lceil>1 / x\<rceil>)))"

definition expo :: "real \<Rightarrow> int" where
  "expo x = max (- 1022) (bexp x)"

text \<open>The spacing of the doubles around \<open>x\<close> (53 significant bits), and the double nearest
  to \<open>x\<close>. Overflow to infinity is left out: apart from \<^verbatim>\<open>1 - threshold\<close> every value the
  code rounds lies between 0 and 1.\<close>

definition ulp :: "real \<Rightarrow> real" where
  "ulp x = 2 powi (expo x - 52)"

definition double :: "real \<Rightarrow> real" where
  "double x =
     (if x < 0 then - (of_int (round_even (- x / ulp (- x))) * ulp (- x))
      else of_int (round_even (x / ulp x)) * ulp x)"

subsection \<open>The scoring code in double precision\<close>

text \<open>The float operations of the scoring code: \<^verbatim>\<open>distance / max_len\<close> on two \<^verbatim>\<open>int\<close>s
  (correctly rounded, \<^verbatim>\<open>ZeroDivisionError\<close> when the divisor is 0), \<^verbatim>\<open>a - b\<close> and \<^verbatim>\<open>a * b\<close>.
  A float literal such as \<^verbatim>\<open>0.7\<close> is \<open>double (7 / 10)\<close>.\<close>

definition float_div :: "nat \<Rightarrow> nat \<Rightarrow> real option" where
  "float_div a b = (if b = 0 then None else Some (double (real a / real b)))"

definition float_sub :: "real \<Rightarrow> real \<Rightarrow> real" where
  "float_sub a b = double (a - b)"

definition float_mul :: "real \<Rightarrow> real \<Rightarrow> real" where
  "float_mul a b = double (a * b)"

text \<open>Lines 52 to 59, 40 to 63, 69 to 71 and 66 to 77 again, every float operation
  rounded.\<close>

fun score_loop_fp :: "string \<Rightarrow> string list \<Rightarrow> real \<Rightarrow> real option" where
  "score_loop_fp query [] max_score = Some max_score"
| "score_loop_fp query (word # words) max_score =
     (if length word \<ge> length query then do {
        distance \<leftarrow> levenshtein_distance query word;
        let max_len = max (length query) (length word);
        ratio \<leftarrow> float_div distance max_len;
        let score = float_sub 1 ratio;
        score_loop_fp query words (if score > max_score then score else max_score)
      }
      else score_loop_fp query words max_score)"

definition fuzzy_match_fp :: "string \<Rightarrow> string \<Rightarrow> real \<Rightarrow> real option" where
  "fuzzy_match_fp query0 text0 threshold =
     (let query = lower query0; text = lower text0 in
      if str_in query text then Some 1
      else
        let words = split text in
        if list_ex (str_in query) words then Some (double (9 / 10))
        else do {
          max_score \<leftarrow> score_loop_fp query words 0;
          if max_score \<ge> float_sub 1 threshold then Some max_score else Some 0
        })"

definition total_score_fp :: "string \<Rightarrow> real \<Rightarrow> group \<Rightarrow> real option" where
  "total_score_fp query threshold g = do {
     name_score \<leftarrow> fuzzy_match_fp query (name g) threshold;
     desc_score \<leftarrow> fuzzy_match_fp query (description_or_empty g) threshold;
     Some (max name_score (float_mul desc_score (double (7 / 10))))
   }"

fun collect_fp :: "string \<Rightarrow> real \<Rightarrow> group list \<Rightarrow> (group \<times> real) list \<Rightarrow> (group \<times> real) list option" where
  "collect_fp query threshold [] results = Some results"
| "collect_fp query threshold (g # groups) results = do {
     total \<leftarrow> total_score_fp query threshold g;
     collect_fp query threshold groups (if total > 0 then results @ [(g, total)] else results)
   }"

definition fuzzy_search_fp :: "string \<Rightarrow> group list \<Rightarrow> real \<Rightarrow> group list option" where
  "fuzzy_search_fp query groups threshold = do {
     results \<leftarrow> collect_fp query threshold groups [];
     Some (map fst (sort_reverse results))
   }"

subsection \<open>Reference notions used in the proofs\<close>

text \<open>The recurrence of the edit distance: the least number of insertions, deletions and
  substitutions, read from the front of both lists. The properties of
  \<open>levenshtein_distance\<close> are proved by showing that its rows hold these values.\<close>

fun ed :: "'a list \<Rightarrow> 'a list \<Rightarrow> nat" where
  "ed [] ys = length ys"
| "ed (x # xs) [] = Suc (length xs)"
| "ed (x # xs) (y # ys) =
     min (ed xs (y # ys) + 1) (min (ed (x # xs) ys + 1) (ed xs ys + (if x \<noteq> y then 1 else 0)))"

text \<open>The row the rolling array holds once the prefix \<open>p\<close> of \<^verbatim>\<open>s1\<close> has been read:
  entry \<open>j\<close> is the distance between \<open>p\<close> and the first \<open>j\<close> characters of \<^verbatim>\<open>s2\<close>.\<close>

definition dp_row :: "'a list \<Rightarrow> 'a list \<Rightarrow> nat list" where
  "dp_row p s2 = map (\<lambda>j. ed (rev p) (rev (take j s2))) [0 ..< Suc (length s2)]"

text \<open>The score of a group as a plain number (every call of \<open>total_score\<close> returns, see
  \<open>total_score_total\<close>), and the list \<^verbatim>\<open>results\<close> the loop of \<^verbatim>\<open>fuzzy_search\<close> builds.\<close>

definition score_of :: "string \<Rightarrow> real \<Rightarrow> group \<Rightarrow> real" where
  "score_of query threshold g = the (total_score query threshold g)"

definition scored :: "string \<Rightarrow> real \<Rightarrow> group list \<Rightarrow> (group \<times> real) list" where
  "scored query threshold groups =
     filter (\<lambda>x. 0 < snd x) (map (\<lambda>g. (g, score_of query threshold g)) groups)"

text \<open>The same two for the rounded functions.\<close>

definition score_of_fp :: "string \<Rightarrow> real \<Rightarrow> group \<Rightarrow> real" where
  "score_of_fp query threshold g = the (total_score_fp query threshold g)"

definition scored_fp :: "string \<Rightarrow> real \<Rightarrow> group list \<Rightarrow> (group \<times> real) list" where
  "scored_fp query threshold groups =
     filter (\<lambda>x. 0 < snd x) (map (\<lambda>g. (g, score_of_fp query threshold g)) groups)"

section \<open>Properties\<close>

subsection \<open>The edit distance recurrence\<close>

lemma ed_Nil2 [simp]: "ed xs [] = length xs"
  by (cases xs) simp_all

lemma ed_sym: "ed xs ys = ed ys xs"
  by (induction xs ys rule: ed.induct) (simp_all add: min.commute min.left_commute eq_commute)

lemma ed_le_max: "ed xs ys \<le> max (length xs) (length ys)"
proof (induction xs ys rule: ed.induct)
  case (3 x xs y ys)
  have "ed (x # xs) (y # ys) \<le> ed xs ys + (if x \<noteq> y then 1 else 0)"
    by simp
  also have "\<dots> \<le> Suc (max (length xs) (length ys))"
    using 3(3) by simp
  finally show ?case by simp
qed simp_all

lemma ed_drop1: "ed (x # xs) ys \<le> Suc (ed xs ys)"
  by (cases ys) simp_all

lemma ed_drop2: "ed xs (y # ys) \<le> Suc (ed xs ys)"
  using ed_drop1 [of y ys xs] by (simp add: ed_sym)

lemma ed_drop12: "ed (x # xs) (y # ys) \<le> ed xs ys + (if x \<noteq> y then 1 else 0)"
  by simp

lemma length_le_ed: "length ys \<le> length xs + ed xs ys"
  by (induction xs ys rule: ed.induct) (simp_all add: min_def)

lemma ed_triangle: "ed xs zs \<le> ed xs ys + ed ys zs"
proof (induction "length xs + length ys + length zs" arbitrary: xs ys zs rule: less_induct)
  case less
  show ?case
  proof (cases ys)
    case Nil
    have "ed xs zs \<le> max (length xs) (length zs)" by (rule ed_le_max)
    then show ?thesis using Nil by simp
  next
    case ys: (Cons y ys')
    show ?thesis
    proof (cases xs)
      case Nil
      then show ?thesis using length_le_ed [of zs ys] by simp
    next
      case xs: (Cons x xs')
      show ?thesis
      proof (cases zs)
        case Nil
        then show ?thesis using length_le_ed [of xs ys] by (simp add: ed_sym [of xs ys] add.commute)
      next
        case zs: (Cons z zs')
        have h1: "ed xs' zs \<le> ed xs' ys + ed ys zs"
          by (rule less) (simp add: xs)
        have h2: "ed xs zs' \<le> ed xs ys + ed ys zs'"
          by (rule less) (simp add: zs)
        have h3: "ed xs zs \<le> ed xs ys' + ed ys' zs"
          by (rule less) (simp add: ys)
        have h4: "ed xs zs' \<le> ed xs ys' + ed ys' zs'"
          by (rule less) (simp add: ys zs)
        have h5: "ed xs' zs \<le> ed xs' ys' + ed ys' zs"
          by (rule less) (simp add: xs ys)
        have h6: "ed xs' zs' \<le> ed xs' ys' + ed ys' zs'"
          by (rule less) (simp add: xs ys zs)
        have u1: "ed xs zs \<le> Suc (ed xs' zs)"
          unfolding xs by (rule ed_drop1)
        have u2: "ed xs zs \<le> Suc (ed xs zs')"
          unfolding zs by (rule ed_drop2)
        have u3: "ed xs zs \<le> ed xs' zs' + (if x \<noteq> z then 1 else 0)"
          unfolding xs zs by (rule ed_drop12)
        have a: "ed xs ys = Suc (ed xs' ys) \<or> ed xs ys = Suc (ed xs ys')
                 \<or> ed xs ys = ed xs' ys' + (if x \<noteq> y then 1 else 0)"
          unfolding xs ys by (simp add: min_def)
        have b: "ed ys zs = Suc (ed ys' zs) \<or> ed ys zs = Suc (ed ys zs')
                 \<or> ed ys zs = ed ys' zs' + (if y \<noteq> z then 1 else 0)"
          unfolding ys zs by (simp add: min_def)
        from a b h1 h2 h3 h4 h5 h6 u1 u2 u3 show ?thesis
          by (auto split: if_splits)
      qed
    qed
  qed
qed

lemma length_dp_row [simp]: "length (dp_row p s2) = Suc (length s2)"
  by (simp add: dp_row_def)

lemma dp_row_nth: "j \<le> length s2 \<Longrightarrow> py_index (dp_row p s2) j = Some (ed (rev p) (rev (take j s2)))"
  unfolding py_index_def dp_row_def by (simp del: upt_Suc)

lemma inner_loop_row:
  "k \<le> length s2 \<Longrightarrow>
   inner_loop c1 (dp_row p s2) (enumerate k (drop k s2))
     (map (\<lambda>j. ed (c1 # rev p) (rev (take j s2))) [0 ..< Suc k])
   = Some (dp_row (p @ [c1]) s2)"
proof (induction "length s2 - k" arbitrary: k)
  case 0
  then show ?case by (simp add: dp_row_def del: upt_Suc)
next
  case (Suc d)
  then have k: "k < length s2" by simp
  let ?c2 = "s2 ! k"
  have dr: "drop k s2 = ?c2 # drop (Suc k) s2"
    using k by (simp add: Cons_nth_drop_Suc)
  have tk: "rev (take (Suc k) s2) = ?c2 # rev (take k s2)"
    using k by (simp add: take_Suc_conv_app_nth)
  let ?cur = "map (\<lambda>j. ed (c1 # rev p) (rev (take j s2))) [0 ..< Suc k]"
  have i1: "py_index (dp_row p s2) (k + 1) = Some (ed (rev p) (?c2 # rev (take k s2)))"
    using k dp_row_nth [of "Suc k" s2 p] by (simp add: tk)
  have i2: "py_index ?cur k = Some (ed (c1 # rev p) (rev (take k s2)))"
    unfolding py_index_def by (simp del: upt_Suc)
  have i3: "py_index (dp_row p s2) k = Some (ed (rev p) (rev (take k s2)))"
    using k dp_row_nth [of k s2 p] by simp
  have ext: "?cur @ [min (ed (rev p) (?c2 # rev (take k s2)) + 1)
        (min (ed (c1 # rev p) (rev (take k s2)) + 1)
             (ed (rev p) (rev (take k s2)) + (if c1 \<noteq> ?c2 then 1 else 0)))]
     = map (\<lambda>j. ed (c1 # rev p) (rev (take j s2))) [0 ..< Suc (Suc k)]"
    by (simp add: tk)
  have IH: "inner_loop c1 (dp_row p s2) (enumerate (Suc k) (drop (Suc k) s2))
     (map (\<lambda>j. ed (c1 # rev p) (rev (take j s2))) [0 ..< Suc (Suc k)]) = Some (dp_row (p @ [c1]) s2)"
    using Suc(1) [of "Suc k"] Suc(2) k by simp
  show ?case
    unfolding dr enumerate_simps inner_loop.simps i1 i2 i3
    by (simp only: bind.bind_lunit Let_def ext IH)
qed

lemma outer_loop_row:
  "i \<le> length s1 \<Longrightarrow>
   outer_loop (enumerate i (drop i s1)) s2 (dp_row (take i s1) s2) = Some (dp_row s1 s2)"
proof (induction "length s1 - i" arbitrary: i)
  case 0
  then show ?case by simp
next
  case (Suc d)
  then have i: "i < length s1" by simp
  have dr: "drop i s1 = s1 ! i # drop (Suc i) s1"
    using i by (simp add: Cons_nth_drop_Suc)
  have inner: "inner_loop (s1 ! i) (dp_row (take i s1) s2) (enumerate 0 s2) [i + 1]
      = Some (dp_row (take (Suc i) s1) s2)"
    using inner_loop_row [of 0 s2 "s1 ! i" "take i s1"] i
    by (simp add: take_Suc_conv_app_nth)
  have IH: "outer_loop (enumerate (Suc i) (drop (Suc i) s1)) s2 (dp_row (take (Suc i) s1) s2)
      = Some (dp_row s1 s2)"
    using Suc(1) [of "Suc i"] Suc(2) i by simp
  show ?case
    unfolding dr enumerate_simps outer_loop.simps inner
    by (simp only: bind.bind_lunit IH)
qed

lemma dp_row_Nil: "dp_row [] s2 = [0 ..< length s2 + 1]"
proof -
  have "map (\<lambda>j. ed (rev []) (rev (take j s2))) [0 ..< Suc (length s2)]
      = map (\<lambda>j. j) [0 ..< Suc (length s2)]"
    by (rule map_cong) auto
  then show ?thesis by (simp add: dp_row_def del: upt_Suc)
qed

lemma levenshtein_distance_ed: "levenshtein_distance s1 s2 = Some (ed (rev s1) (rev s2))"
proof -
  have core: "levenshtein_distance a b = Some (ed (rev a) (rev b))" if "length b \<le> length a" for a b
  proof (cases "b = []")
    case True
    then show ?thesis by (simp add: levenshtein_distance.simps)
  next
    case False
    have "outer_loop (enumerate 0 a) b [0 ..< length b + 1] = Some (dp_row a b)"
      using outer_loop_row [of 0 a b] by (simp add: dp_row_Nil)
    moreover have "py_last (dp_row a b) = Some (ed (rev a) (rev b))"
      by (simp add: py_last_def dp_row_def del: upt_Suc) (simp add: last_map)
    ultimately show ?thesis
      using that False by (subst levenshtein_distance.simps) simp
  qed
  show ?thesis
  proof (cases "length s1 < length s2")
    case True
    then have "levenshtein_distance s1 s2 = levenshtein_distance s2 s1"
      by (subst levenshtein_distance.simps) simp
    also have "\<dots> = Some (ed (rev s2) (rev s1))"
      using True by (intro core) simp
    finally show ?thesis by (simp add: ed_sym)
  next
    case False
    then show ?thesis by (intro core) simp
  qed
qed

text \<open>C7: the edit distance satisfies the triangle inequality: for all strings a, b and c
  the three calls return, and distance(a, c) is at most distance(a, b) + distance(b, c).\<close>

theorem levenshtein_distance_triangle:
  "\<exists>dac dab dbc.
     levenshtein_distance a c = Some dac \<and> levenshtein_distance a b = Some dab \<and>
     levenshtein_distance b c = Some dbc \<and> dac \<le> dab + dbc"
  using ed_triangle [of "rev a" "rev c" "rev b"] by (simp add: levenshtein_distance_ed)

subsection \<open>Substrings and tokens\<close>

lemma startswith_iff: "startswith tx query \<longleftrightarrow> (\<exists>after. tx = query @ after)"
  by (induction tx query rule: startswith.induct) auto

lemma str_in_iff: "str_in query tx \<longleftrightarrow> (\<exists>before after. tx = before @ query @ after)"
proof (induction tx)
  case Nil
  then show ?case by simp
next
  case (Cons c tx)
  show ?case
  proof
    assume "str_in query (c # tx)"
    then consider "startswith (c # tx) query" | "str_in query tx" by auto
    then show "\<exists>before after. c # tx = before @ query @ after"
    proof cases
      case 1
      then obtain after where "c # tx = query @ after"
        unfolding startswith_iff by blast
      then have "c # tx = [] @ query @ after" by simp
      then show ?thesis by blast
    next
      case 2
      then obtain before after where "tx = before @ query @ after"
        using Cons.IH by blast
      then have "c # tx = (c # before) @ query @ after" by simp
      then show ?thesis by blast
    qed
  next
    assume "\<exists>before after. c # tx = before @ query @ after"
    then obtain before after where eq: "c # tx = before @ query @ after" by blast
    show "str_in query (c # tx)"
    proof (cases before)
      case Nil
      then have "startswith (c # tx) query"
        using eq unfolding startswith_iff by auto
      then show ?thesis by simp
    next
      case (Cons b before')
      then have "tx = before' @ query @ after" using eq by simp
      then have "str_in query tx" using Cons.IH by blast
      then show ?thesis by simp
    qed
  qed
qed

lemma str_in_empty [simp]: "str_in [] tx"
  by (cases tx) simp_all

lemma str_in_trans: "str_in a b \<Longrightarrow> str_in b c \<Longrightarrow> str_in a c"
proof -
  assume "str_in a b" and "str_in b c"
  then obtain p1 s1 p2 s2 where "b = p1 @ a @ s1" and "c = p2 @ b @ s2"
    unfolding str_in_iff by blast
  then have "c = (p2 @ p1) @ a @ (s1 @ s2)" by simp
  then show "str_in a c" unfolding str_in_iff by blast
qed

lemma split_from_sub:
  "word \<in> set (split_from acc tx) \<Longrightarrow> \<exists>before after. acc @ tx = before @ word @ after"
proof (induction tx arbitrary: acc)
  case Nil
  then have "word = acc" by (simp split: if_splits)
  then have "acc @ [] = [] @ word @ []" by simp
  then show ?case by blast
next
  case (Cons c tx)
  show ?case
  proof (cases "isspace c")
    case False
    then have "word \<in> set (split_from (acc @ [c]) tx)" using Cons.prems by simp
    then show ?thesis using Cons.IH [of "acc @ [c]"] by simp
  next
    case True
    then consider "word = acc" | "word \<in> set (split_from [] tx)"
      using Cons.prems by (auto split: if_splits)
    then show ?thesis
    proof cases
      case 1
      then have "acc @ c # tx = [] @ word @ (c # tx)" by simp
      then show ?thesis by blast
    next
      case 2
      then obtain before after where "tx = before @ word @ after"
        using Cons.IH [of "[]"] by auto
      then have "acc @ c # tx = (acc @ c # before) @ word @ after" by simp
      then show ?thesis by blast
    qed
  qed
qed

lemma split_from_nonempty: "[] \<notin> set (split_from acc tx)"
  by (induction tx arbitrary: acc) auto

lemma split_sub: "word \<in> set (split tx) \<Longrightarrow> str_in word tx"
  unfolding split_def str_in_iff using split_from_sub [of word "[]" tx] by simp

lemma split_nonempty: "[] \<notin> set (split tx)"
  unfolding split_def by (rule split_from_nonempty)

lemma list_ex_split_str_in: "list_ex (str_in query) (split tx) \<Longrightarrow> str_in query tx"
  unfolding list_ex_iff using split_sub str_in_trans by blast

lemma levenshtein_distance_le:
  "\<exists>d. levenshtein_distance s1 s2 = Some d \<and> d \<le> max (length s1) (length s2)"
  using ed_le_max [of "rev s1" "rev s2"] by (simp add: levenshtein_distance_ed)

lemma score_loop_bounds:
  "[] \<notin> set words \<Longrightarrow> 0 \<le> m \<Longrightarrow> m \<le> 1 \<Longrightarrow>
   \<exists>r. score_loop query words m = Some r \<and> m \<le> r \<and> r \<le> 1"
proof (induction words arbitrary: m)
  case Nil
  then show ?case by simp
next
  case (Cons word words)
  then have ne: "word \<noteq> []" and rest: "[] \<notin> set words" by auto
  show ?case
  proof (cases "length query \<le> length word")
    case False
    then show ?thesis using Cons.IH [OF rest Cons.prems(2,3)] by simp
  next
    case True
    obtain d where d: "levenshtein_distance query word = Some d"
      and dle: "d \<le> max (length query) (length word)"
      using levenshtein_distance_le by blast
    define max_len where "max_len = max (length query) (length word)"
    have pos: "0 < max_len" using ne by (auto simp: max_len_def max_def)
    define score where "score = 1 - real d / real max_len"
    have div: "py_truediv d max_len = Some (real d / real max_len)"
      using pos by (simp add: py_truediv_def)
    have "real d / real max_len \<le> 1"
      using dle pos by (simp add: max_len_def)
    moreover have "0 \<le> real d / real max_len" by simp
    ultimately have sc: "0 \<le> score" "score \<le> 1" by (simp_all add: score_def)
    define m' where "m' = (if score > m then score else m)"
    have m': "0 \<le> m'" "m' \<le> 1" "m \<le> m'"
      using sc Cons.prems(2,3) by (simp_all add: m'_def)
    obtain r where r: "score_loop query words m' = Some r" "m' \<le> r" "r \<le> 1"
      using Cons.IH [OF rest m'(1,2)] by blast
    have "score_loop query (word # words) m = score_loop query words m'"
      using True d div by (simp add: max_len_def [symmetric] score_def m'_def)
    then show ?thesis using r m'(3) by auto
  qed
qed

lemma fuzzy_match_at_cases:
  "fuzzy_match_at query tx threshold = Some (Whole_text, 1) \<and> str_in (lower query) (lower tx)
   \<or> (\<exists>r. fuzzy_match_at query tx threshold = Some (Ratio, r) \<and> 1 - threshold \<le> r \<and> 0 \<le> r \<and> r \<le> 1)
   \<or> fuzzy_match_at query tx threshold = Some (No_match, 0)"
proof (cases "str_in (lower query) (lower tx)")
  case True
  then show ?thesis by (simp add: fuzzy_match_at_def)
next
  case False
  then have no: "\<not> list_ex (str_in (lower query)) (split (lower tx))"
    using list_ex_split_str_in by blast
  obtain r where r: "score_loop (lower query) (split (lower tx)) 0 = Some r" "0 \<le> r" "r \<le> 1"
    using score_loop_bounds [where words = "split (lower tx)" and m = 0 and query = "lower query"]
      split_nonempty [of "lower tx"] by auto
  show ?thesis
    using False no r by (simp add: fuzzy_match_at_def)
qed

subsection \<open>Properties of fuzzy\_match\<close>

lemma fuzzy_match_cases:
  "fuzzy_match query tx threshold = Some 1 \<and> str_in (lower query) (lower tx)
   \<or> (\<exists>r. fuzzy_match query tx threshold = Some r \<and> 1 - threshold \<le> r \<and> 0 \<le> r \<and> r \<le> 1)
   \<or> fuzzy_match query tx threshold = Some 0"
  using fuzzy_match_at_cases [of query tx threshold] by (auto simp: fuzzy_match_def)

text \<open>C1 (as amended): \<^verbatim>\<open>fuzzy_match("cat", "concatenate")\<close> with the default threshold
  returns exactly 1.0, through the whole-text substring test of line 44: \<^verbatim>\<open>"cat"\<close> is a
  substring of \<^verbatim>\<open>"concatenate"\<close>, so the token test of line 49 is never reached.\<close>

theorem fuzzy_match_cat_concatenate:
  "fuzzy_match_at ''cat'' ''concatenate'' (3 / 10) = Some (Whole_text, 1)"
  by (simp add: fuzzy_match_at_def lower_def lower_char_def)

text \<open>C1 as stated fails: at this input the value returned is not 0.9.\<close>

theorem fuzzy_match_cat_concatenate_not_09:
  "fuzzy_match ''cat'' ''concatenate'' (3 / 10) \<noteq> Some (9 / 10)"
  by (simp add: fuzzy_match_def fuzzy_match_at_def lower_def lower_char_def)

text \<open>C2: the \<^verbatim>\<open>return 0.9\<close> of line 50 is unreachable. Every token of the folded text
  is a substring of the folded text, so a folded query that is a substring of some token is
  a substring of the whole text, and no call of \<^verbatim>\<open>fuzzy_match\<close>, for any query, text and
  threshold, returns through the token shortcut.\<close>

theorem token_return_unreachable:
  "(\<forall>word \<in> set (split (lower text)). str_in word (lower text)) \<and>
   (list_ex (str_in (lower query)) (split (lower text)) \<longrightarrow> str_in (lower query) (lower text)) \<and>
   fuzzy_match_at query text threshold \<noteq> Some (Token, r)"
  using fuzzy_match_at_cases [of query "text" threshold]
  by (auto simp: split_sub list_ex_split_str_in)

theorem token_return_unreachable_witness:
  "list_ex (str_in (lower ''cat'')) (split (lower ''concatenate'')) \<and>
   str_in (lower ''cat'') (lower ''concatenate'') \<and>
   fuzzy_match_at ''cat'' ''concatenate'' (3 / 10) \<noteq> Some (Token, 9 / 10)"
proof -
  have h: "list_ex (str_in (lower ''cat'')) (split (lower ''concatenate''))"
    by code_simp
  show ?thesis
    using h token_return_unreachable [of "''concatenate''" "''cat''" "3 / 10" "9 / 10"]
    by blast
qed

text \<open>C6: if the folded query is a substring of the folded text (the test \<^verbatim>\<open>query in text\<close>,
  or equally a decomposition of the text around the query), \<^verbatim>\<open>fuzzy_match\<close> returns exactly
  1.0, for every threshold; and the empty query returns 1.0 on every text, the empty text
  included.\<close>

theorem fuzzy_match_whole_text:
  "(str_in (lower query) (lower text) \<longrightarrow> fuzzy_match query text threshold = Some 1) \<and>
   (lower text = before @ lower query @ after \<longrightarrow> fuzzy_match query text threshold = Some 1) \<and>
   fuzzy_match [] text threshold = Some 1"
proof -
  have whole: "fuzzy_match q tx threshold = Some 1" if "str_in (lower q) (lower tx)" for q tx
    using that by (simp add: fuzzy_match_def fuzzy_match_at_def)
  have "str_in (lower query) (lower text)" if "lower text = before @ lower query @ after"
    unfolding str_in_iff using that by blast
  moreover have "str_in (lower []) (lower text)"
    by (simp add: lower_def)
  ultimately show ?thesis using whole by blast
qed

theorem fuzzy_match_whole_text_witness:
  "str_in (lower ''Cat'') (lower ''a cat store'') \<and>
   lower ''a cat store'' = ''a '' @ lower ''Cat'' @ '' store'' \<and>
   fuzzy_match ''Cat'' ''a cat store'' (3 / 10) = Some 1"
proof -
  have h1: "str_in (lower ''Cat'') (lower ''a cat store'')"
    by code_simp
  have h2: "lower ''a cat store'' = ''a '' @ lower ''Cat'' @ '' store''"
    by code_simp
  show ?thesis
    using h1 h2 fuzzy_match_whole_text [of "''Cat''" "''a cat store''" "3 / 10" "''a ''" "'' store''"]
    by blast
qed

text \<open>C8: for every query, text and threshold (any real), \<^verbatim>\<open>fuzzy_match\<close> returns (no
  exception) a value between 0 and 1. The edit distance returns and never exceeds the longer
  string's length; for every token of the folded text the division does not fail and the
  candidate score \<open>1 - distance / max_len\<close> lies between 0 and 1.\<close>

theorem fuzzy_match_total_unit_interval:
  "(\<exists>r. fuzzy_match query text threshold = Some r \<and> 0 \<le> r \<and> r \<le> 1) \<and>
   (\<exists>d. levenshtein_distance query word = Some d \<and> d \<le> max (length query) (length word)) \<and>
   (\<forall>token \<in> set (split (lower text)). \<exists>d ratio.
      levenshtein_distance (lower query) token = Some d \<and>
      py_truediv d (max (length (lower query)) (length token)) = Some ratio \<and>
      0 \<le> 1 - ratio \<and> 1 - ratio \<le> 1)"
proof (intro conjI ballI)
  show "\<exists>r. fuzzy_match query text threshold = Some r \<and> 0 \<le> r \<and> r \<le> 1"
    using fuzzy_match_cases [of query "text" threshold] by auto
  show "\<exists>d. levenshtein_distance query word = Some d \<and> d \<le> max (length query) (length word)"
    by (rule levenshtein_distance_le)
next
  fix token assume "token \<in> set (split (lower text))"
  then have ne: "token \<noteq> []" using split_nonempty by metis
  define n where "n = max (length (lower query)) (length token)"
  obtain d where d: "levenshtein_distance (lower query) token = Some d" "d \<le> n"
    unfolding n_def using levenshtein_distance_le by blast
  have pos: "0 < n" using ne by (auto simp: n_def max_def)
  then have "py_truediv d n = Some (real d / real n)" by (simp add: py_truediv_def)
  moreover have "real d / real n \<le> 1" using d(2) pos by simp
  moreover have "0 \<le> real d / real n" by simp
  ultimately show "\<exists>d ratio. levenshtein_distance (lower query) token = Some d \<and>
      py_truediv d (max (length (lower query)) (length token)) = Some ratio \<and>
      0 \<le> 1 - ratio \<and> 1 - ratio \<le> 1"
    using d(1) unfolding n_def by auto
qed

theorem fuzzy_match_total_unit_interval_witness:
  "''world'' \<in> set (split (lower ''hello world'')) \<and>
   (\<exists>r. fuzzy_match ''wrold'' ''hello world'' (3 / 10) = Some r \<and> 0 \<le> r \<and> r \<le> 1) \<and>
   (\<exists>d ratio. levenshtein_distance (lower ''wrold'') ''world'' = Some d \<and>
      py_truediv d (max (length (lower ''wrold'')) (length ''world'')) = Some ratio \<and>
      0 \<le> 1 - ratio \<and> 1 - ratio \<le> 1)"
proof -
  have mem: "''world'' \<in> set (split (lower ''hello world''))"
    by code_simp
  show ?thesis
    using mem fuzzy_match_total_unit_interval [of "''wrold''" "''hello world''" "3 / 10" "''world''"]
    by blast
qed


subsection \<open>Properties of fuzzy\_search\<close>







lemma scored_snd: "x \<in> set (scored query threshold groups) \<Longrightarrow> snd x = score_of query threshold (fst x)"
  by (auto simp: scored_def)


lemma set_sort_reverse [simp]: "set (sort_reverse xs) = set xs"
  by (simp add: sort_reverse_def)

lemma sorted_sort_reverse: "sorted_wrt (\<lambda>a b. b \<le> a) (map snd (sort_reverse xs))"
proof -
  have "sorted (map (\<lambda>x. - snd x) (sort_reverse xs))"
    unfolding sort_reverse_def by (rule sorted_sort_key)
  then have "sorted_wrt (\<lambda>a b. - snd a \<le> - snd b) (sort_reverse xs)"
    by (simp add: sorted_wrt_map)
  then show ?thesis by (simp add: sorted_wrt_map)
qed

lemma filter_sort_reverse:
  "filter (\<lambda>x. snd x = s) (sort_reverse xs) = filter (\<lambda>x. snd x = s) xs"
  using sort_key_stable [of "\<lambda>x. - snd x" "- s" xs] by (simp add: sort_reverse_def)




text \<open>The end-to-end scenario: the name match comes first, the description match second,
  the group that matches nowhere is dropped.\<close>

lemma fuzzy_search_scenario:
  "fuzzy_search ''soccer''
     [\<lparr>gid = 1, name = ''Chess'', description = None\<rparr>,
      \<lparr>gid = 2, name = ''Book Club'', description = Some ''soccer novels discussion''\<rparr>,
      \<lparr>gid = 3, name = ''Soccer Fans'', description = Some ''weekly matches''\<rparr>] (3 / 10)
   = Some [\<lparr>gid = 3, name = ''Soccer Fans'', description = Some ''weekly matches''\<rparr>,
           \<lparr>gid = 2, name = ''Book Club'', description = Some ''soccer novels discussion''\<rparr>]"
  by code_simp

subsection \<open>Properties of the rounding\<close>

lemma round_even_cases: "round_even y = \<lfloor>y\<rfloor> \<or> round_even y = \<lfloor>y\<rfloor> + 1"
  by (simp add: round_even_def Let_def)

lemma round_even_0 [simp]: "round_even 0 = 0"
  by (simp add: round_even_def)

lemma round_even_of_int [simp]: "round_even (of_int n) = n"
  by (simp add: round_even_def)

lemma round_even_mono: "a \<le> b \<Longrightarrow> round_even a \<le> round_even b"
proof -
  assume ab: "a \<le> b"
  then have fl: "\<lfloor>a\<rfloor> \<le> \<lfloor>b\<rfloor>" by (rule floor_mono)
  show ?thesis
  proof (cases "\<lfloor>a\<rfloor> = \<lfloor>b\<rfloor>")
    case False
    then have "\<lfloor>a\<rfloor> + 1 \<le> \<lfloor>b\<rfloor>" using fl by simp
    then show ?thesis
      using round_even_cases [of a] round_even_cases [of b] by linarith
  next
    case True
    then show ?thesis
      using ab by (auto simp: round_even_def Let_def)
  qed
qed

lemma bexp_bounds:
  assumes "0 < x"
  shows "2 powi bexp x \<le> x" and "x < 2 powi (bexp x + 1)"
proof -
  show "2 powi bexp x \<le> x"
  proof (cases "1 \<le> x")
    case True
    then have pos: "0 < \<lfloor>x\<rfloor>" by linarith
    then have b1: "1 \<le> bitlen \<lfloor>x\<rfloor>" by (auto simp: bitlen_alt_def)
    have "(2::int) ^ nat (bitlen \<lfloor>x\<rfloor> - 1) \<le> \<lfloor>x\<rfloor>"
      using bitlen_bounds [OF pos] by simp
    then have "(2::real) ^ nat (bitlen \<lfloor>x\<rfloor> - 1) \<le> of_int \<lfloor>x\<rfloor>"
      by (metis of_int_le_iff of_int_numeral of_int_power)
    also have "\<dots> \<le> x" by simp
    finally show ?thesis
      using True b1 by (simp add: bexp_def power_int_nonneg_exp)
  next
    case False
    define n where "n = nat \<lceil>1 / x\<rceil>"
    have y: "1 < 1 / x" using False assms by simp
    have "1 / x \<le> real n" unfolding n_def using y by linarith
    also have "real n \<le> 2 ^ ceillog2 n"
      using le_two_power_ceillog2 [of n] by (metis of_nat_le_iff of_nat_numeral of_nat_power)
    finally have "1 / x \<le> 2 ^ ceillog2 n" .
    then have "1 / 2 ^ ceillog2 n \<le> x"
      using assms by (simp add: field_simps)
    then show ?thesis
      using False by (simp add: bexp_def n_def power_int_minus_divide)
  qed
  show "x < 2 powi (bexp x + 1)"
  proof (cases "1 \<le> x")
    case True
    then have pos: "0 < \<lfloor>x\<rfloor>" by linarith
    then have b1: "1 \<le> bitlen \<lfloor>x\<rfloor>" by (auto simp: bitlen_alt_def)
    have "\<lfloor>x\<rfloor> + 1 \<le> (2::int) ^ nat (bitlen \<lfloor>x\<rfloor>)"
      using bitlen_bounds [OF pos] by simp
    then have "of_int (\<lfloor>x\<rfloor> + 1) \<le> (2::real) ^ nat (bitlen \<lfloor>x\<rfloor>)"
      by (metis of_int_le_iff of_int_numeral of_int_power)
    then have "real_of_int \<lfloor>x\<rfloor> + 1 \<le> 2 ^ nat (bitlen \<lfloor>x\<rfloor>)"
      by simp
    moreover have "x < real_of_int \<lfloor>x\<rfloor> + 1" by linarith
    ultimately have "x < 2 ^ nat (bitlen \<lfloor>x\<rfloor>)" by (rule less_le_trans [rotated])
    then show ?thesis
      using True b1 by (simp add: bexp_def power_int_nonneg_exp)
  next
    case False
    define n where "n = nat \<lceil>1 / x\<rceil>"
    define k where "k = ceillog2 n"
    have y: "1 < 1 / x" using False assms by simp
    then have n2: "2 \<le> n" unfolding n_def by linarith
    then have k1: "1 \<le> k"
      unfolding k_def using ceillog2_ge_iff [of n 1] by simp
    have "\<not> ceillog2 n \<le> k - 1" using k1 by (simp add: k_def)
    then have "2 ^ (k - 1) < n"
      using ceillog2_le_iff [of n "k - 1"] n2 by simp
    then have "int (2 ^ (k - 1)) < \<lceil>1 / x\<rceil>"
      unfolding n_def by linarith
    then have "real (2 ^ (k - 1)) < 1 / x"
      by (simp add: less_ceiling_iff)
    then have "x < 1 / 2 ^ (k - 1)"
      using assms by (simp add: field_simps)
    moreover have "2 powi (- int k + 1) = (1::real) / 2 ^ (k - 1)"
    proof -
      have "- int k + 1 = - int (k - 1)" using k1 by simp
      then show ?thesis by (simp only: power_int_minus_divide power_int_of_nat)
    qed
    ultimately show ?thesis
      using False by (simp add: bexp_def n_def [symmetric] k_def [symmetric])
  qed
qed

lemma ulp_expo: "ulp x = 2 powi (expo x - 52)"
  by (simp add: ulp_def)

lemma ulp_pos: "0 < ulp x"
  by (simp add: ulp_def)

lemma expo_upper: "0 < x \<Longrightarrow> x < 2 powi (expo x + 1)"
proof -
  assume x: "0 < x"
  have "x < 2 powi (bexp x + 1)" using bexp_bounds(2) [OF x] .
  also have "\<dots> \<le> 2 powi (expo x + 1)"
    by (rule power_int_increasing) (simp_all add: expo_def)
  finally show ?thesis .
qed

lemma expo_lower: "0 < x \<Longrightarrow> - 1022 < expo x \<Longrightarrow> 2 powi expo x \<le> x"
  using bexp_bounds(1) [of x] by (simp add: expo_def max_def split: if_splits)

lemma bexp_mono: "0 < x \<Longrightarrow> x \<le> y \<Longrightarrow> bexp x \<le> bexp y"
proof -
  assume x: "0 < x" and xy: "x \<le> y"
  then have y: "0 < y" by simp
  have "(2::real) powi bexp x \<le> x" using bexp_bounds(1) [OF x] .
  also have "x \<le> y" by fact
  also have "y < 2 powi (bexp y + 1)" using bexp_bounds(2) [OF y] .
  finally have lt: "(2::real) powi bexp x < 2 powi (bexp y + 1)" .
  show ?thesis
  proof (rule ccontr)
    assume "\<not> bexp x \<le> bexp y"
    then have "bexp y + 1 \<le> bexp x" by simp
    then have "(2::real) powi (bexp y + 1) \<le> 2 powi bexp x"
      by (intro power_int_increasing) simp_all
    then show False using lt by simp
  qed
qed

lemma expo_mono: "0 < x \<Longrightarrow> x \<le> y \<Longrightarrow> expo x \<le> expo y"
  using bexp_mono [of x y] by (simp add: expo_def)

lemma double_nonneg_eq: "0 \<le> x \<Longrightarrow> double x = of_int (round_even (x / ulp x)) * ulp x"
  by (simp add: double_def)

lemma double_0 [simp]: "double 0 = 0"
  by (simp add: double_def)

lemma double_1 [simp]: "double 1 = 1"
  by code_simp

lemma double_mono_pos:
  assumes x: "0 < x" and xy: "x \<le> y"
  shows "double x \<le> double y"
proof -
  have y: "0 < y" using x xy by simp
  have e: "expo x \<le> expo y" using expo_mono [OF x xy] .
  show ?thesis
  proof (cases "expo x = expo y")
    case True
    then have u: "ulp y = ulp x" by (simp add: ulp_expo)
    have "x / ulp x \<le> y / ulp x"
      using xy ulp_pos [of x] by (simp add: divide_right_mono)
    then have "round_even (x / ulp x) \<le> round_even (y / ulp x)"
      by (rule round_even_mono)
    then have "real_of_int (round_even (x / ulp x)) * ulp x \<le> real_of_int (round_even (y / ulp x)) * ulp x"
      using ulp_pos [of x] by simp
    then show ?thesis
      using x y by (simp add: double_nonneg_eq u)
  next
    case False
    then have lt: "expo x + 1 \<le> expo y" and ny: "- 1022 < expo y"
      using e by (simp_all add: expo_def)
    have p53: "2 powi (expo x + 1) / ulp x = real_of_int (2 ^ 53)"
      by (simp add: ulp_expo power_int_diff power_int_add)
    have "x / ulp x \<le> 2 powi (expo x + 1) / ulp x"
      using expo_upper [OF x] ulp_pos [of x] by (simp add: divide_right_mono)
    then have "round_even (x / ulp x) \<le> round_even (real_of_int (2 ^ 53))"
      unfolding p53 by (rule round_even_mono)
    then have "round_even (x / ulp x) \<le> 2 ^ 53"
      by (simp only: round_even_of_int)
    then have "real_of_int (round_even (x / ulp x)) \<le> real_of_int (2 ^ 53)"
      by (simp only: of_int_le_iff)
    then have "real_of_int (round_even (x / ulp x)) * ulp x \<le> real_of_int (2 ^ 53) * ulp x"
      using ulp_pos [of x] by (simp only: mult_le_cancel_right_pos)
    also have "real_of_int (2 ^ 53) * ulp x = 2 powi (expo x + 1)"
      by (simp add: ulp_expo power_int_diff power_int_add)
    finally have dx: "double x \<le> 2 powi (expo x + 1)"
      using x by (simp add: double_nonneg_eq)
    have p52: "2 powi expo y / ulp y = real_of_int (2 ^ 52)"
      by (simp add: ulp_expo power_int_diff)
    have "2 powi expo y / ulp y \<le> y / ulp y"
      using expo_lower [OF y ny] ulp_pos [of y] by (simp add: divide_right_mono)
    then have "round_even (real_of_int (2 ^ 52)) \<le> round_even (y / ulp y)"
      unfolding p52 by (rule round_even_mono)
    then have "2 ^ 52 \<le> round_even (y / ulp y)"
      by (simp only: round_even_of_int)
    then have "real_of_int (2 ^ 52) \<le> real_of_int (round_even (y / ulp y))"
      by (simp only: of_int_le_iff)
    then have "real_of_int (2 ^ 52) * ulp y \<le> real_of_int (round_even (y / ulp y)) * ulp y"
      using ulp_pos [of y] by (simp only: mult_le_cancel_right_pos)
    moreover have "real_of_int (2 ^ 52) * ulp y = 2 powi expo y"
      by (simp add: ulp_expo power_int_diff)
    ultimately have dy: "2 powi expo y \<le> double y"
      using y by (simp add: double_nonneg_eq)
    have "(2::real) powi (expo x + 1) \<le> 2 powi expo y"
      using lt by (intro power_int_increasing) simp_all
    then show ?thesis using dx dy by linarith
  qed
qed

lemma double_mono: "0 \<le> x \<Longrightarrow> x \<le> y \<Longrightarrow> double x \<le> double y"
proof -
  assume x: "0 \<le> x" and xy: "x \<le> y"
  show ?thesis
  proof (cases "x = 0")
    case False
    then show ?thesis using x xy double_mono_pos by simp
  next
    case True
    have "0 \<le> round_even (y / ulp y)"
      using round_even_mono [of 0 "y / ulp y"] x xy ulp_pos [of y] by simp
    then show ?thesis
      using True xy ulp_pos [of y] by (simp add: double_nonneg_eq)
  qed
qed

lemma double_unit: "0 \<le> x \<Longrightarrow> x \<le> 1 \<Longrightarrow> 0 \<le> double x \<and> double x \<le> 1"
  using double_mono [of 0 x] double_mono [of x 1] by simp

subsection \<open>Properties of fuzzy\_search in double precision\<close>

lemma double_7_10_nonneg: "0 \<le> double (7 / 10)"
  using double_mono [of 0 "7 / 10"] by simp

lemma float_mul_mono:
  "0 \<le> a \<Longrightarrow> a \<le> b \<Longrightarrow> 0 \<le> c \<Longrightarrow> float_mul a c \<le> float_mul b c"
  unfolding float_mul_def by (intro double_mono mult_right_mono mult_nonneg_nonneg)

lemma float_mul_nonneg: "0 \<le> a \<Longrightarrow> 0 \<le> c \<Longrightarrow> 0 \<le> float_mul a c"
  using double_mono [of 0 "a * c"] by (simp add: float_mul_def)

lemma float_mul_unit: "0 \<le> a \<Longrightarrow> a \<le> 1 \<Longrightarrow> 0 \<le> c \<Longrightarrow> c \<le> 1 \<Longrightarrow> float_mul a c \<le> 1"
proof -
  assume "0 \<le> a" "a \<le> 1" "0 \<le> c" "c \<le> 1"
  then have "a * c \<le> 1" "0 \<le> a * c" by (simp_all add: mult_le_one)
  then show ?thesis using double_unit [of "a * c"] by (simp add: float_mul_def)
qed

lemma score_loop_fp_bounds:
  "[] \<notin> set words \<Longrightarrow> 0 \<le> m \<Longrightarrow> m \<le> 1 \<Longrightarrow>
   \<exists>r. score_loop_fp query words m = Some r \<and> m \<le> r \<and> r \<le> 1"
proof (induction words arbitrary: m)
  case Nil
  then show ?case by simp
next
  case (Cons word words)
  then have ne: "word \<noteq> []" and rest: "[] \<notin> set words" by auto
  show ?case
  proof (cases "length query \<le> length word")
    case False
    then show ?thesis using Cons.IH [OF rest Cons.prems(2,3)] by simp
  next
    case True
    obtain d where d: "levenshtein_distance query word = Some d"
      and dle: "d \<le> max (length query) (length word)"
      using levenshtein_distance_le by blast
    define max_len where "max_len = max (length query) (length word)"
    have pos: "0 < max_len" using ne by (auto simp: max_len_def max_def)
    define ratio where "ratio = double (real d / real max_len)"
    define score where "score = float_sub 1 ratio"
    have div: "float_div d max_len = Some ratio"
      using pos by (simp add: float_div_def ratio_def)
    have "real d / real max_len \<le> 1"
      using dle pos by (simp add: max_len_def)
    moreover have "0 \<le> real d / real max_len" by simp
    ultimately have rt: "0 \<le> ratio" "ratio \<le> 1"
      using double_unit [of "real d / real max_len"] by (simp_all add: ratio_def)
    then have sc: "0 \<le> score" "score \<le> 1"
      using double_unit [of "1 - ratio"] by (simp_all add: score_def float_sub_def)
    define m' where "m' = (if score > m then score else m)"
    have m': "0 \<le> m'" "m' \<le> 1" "m \<le> m'"
      using sc Cons.prems(2,3) by (simp_all add: m'_def)
    obtain r where r: "score_loop_fp query words m' = Some r" "m' \<le> r" "r \<le> 1"
      using Cons.IH [OF rest m'(1,2)] by blast
    have "score_loop_fp query (word # words) m = score_loop_fp query words m'"
      using True d div by (simp add: max_len_def [symmetric] score_def m'_def)
    then show ?thesis using r m'(3) by auto
  qed
qed

lemma fuzzy_match_fp_total:
  "\<exists>r. fuzzy_match_fp query tx threshold = Some r \<and> 0 \<le> r \<and> r \<le> 1"
proof (cases "str_in (lower query) (lower tx)")
  case True
  then show ?thesis by (simp add: fuzzy_match_fp_def)
next
  case False
  then have no: "\<not> list_ex (str_in (lower query)) (split (lower tx))"
    using list_ex_split_str_in by blast
  obtain r where r: "score_loop_fp (lower query) (split (lower tx)) 0 = Some r" "0 \<le> r" "r \<le> 1"
    using score_loop_fp_bounds [where words = "split (lower tx)" and m = 0 and query = "lower query"]
      split_nonempty [of "lower tx"] by auto
  show ?thesis
    using False no r by (simp add: fuzzy_match_fp_def)
qed

lemma total_score_fp_total:
  "\<exists>n d. fuzzy_match_fp query (name g) threshold = Some n \<and>
     fuzzy_match_fp query (description_or_empty g) threshold = Some d \<and>
     total_score_fp query threshold g = Some (max n (float_mul d (double (7 / 10)))) \<and>
     0 \<le> n \<and> n \<le> 1 \<and> 0 \<le> d \<and> d \<le> 1"
proof -
  obtain n where n: "fuzzy_match_fp query (name g) threshold = Some n" "0 \<le> n" "n \<le> 1"
    using fuzzy_match_fp_total by blast
  obtain d where d: "fuzzy_match_fp query (description_or_empty g) threshold = Some d" "0 \<le> d" "d \<le> 1"
    using fuzzy_match_fp_total by blast
  show ?thesis using n d by (simp add: total_score_fp_def)
qed

lemma total_score_fp_score_of: "total_score_fp query threshold g = Some (score_of_fp query threshold g)"
  using total_score_fp_total [of query g threshold] by (auto simp: score_of_fp_def)

lemma collect_fp_scored:
  "collect_fp query threshold groups results = Some (results @ scored_fp query threshold groups)"
  by (induction groups arbitrary: results) (simp_all add: scored_fp_def total_score_fp_score_of)

lemma fuzzy_search_fp_scored:
  "fuzzy_search_fp query groups threshold
     = Some (map fst (sort_reverse (scored_fp query threshold groups)))"
  by (simp add: fuzzy_search_fp_def collect_fp_scored)

lemma scored_fp_snd:
  "x \<in> set (scored_fp query threshold groups) \<Longrightarrow> snd x = score_of_fp query threshold (fst x)"
  by (auto simp: scored_fp_def)

lemma map_fst_scored_fp:
  "map fst (scored_fp query threshold groups) = filter (\<lambda>g. 0 < score_of_fp query threshold g) groups"
  by (induction groups) (simp_all add: scored_fp_def)

lemma map_snd_sort_reverse_fp:
  "map snd (sort_reverse (scored_fp query threshold groups))
   = map (score_of_fp query threshold) (map fst (sort_reverse (scored_fp query threshold groups)))"
  by (simp add: scored_fp_snd)

lemma fuzzy_search_fp_sorted:
  "sorted_wrt (\<lambda>g h. score_of_fp query threshold h \<le> score_of_fp query threshold g)
     (map fst (sort_reverse (scored_fp query threshold groups)))"
  using sorted_sort_reverse [of "scored_fp query threshold groups"]
  unfolding map_snd_sort_reverse_fp by (simp add: sorted_wrt_map)

lemma fuzzy_search_fp_stable:
  "filter (\<lambda>g. score_of_fp query threshold g = s) (map fst (sort_reverse (scored_fp query threshold groups)))
   = filter (\<lambda>g. score_of_fp query threshold g = s \<and> 0 < s) groups"
proof -
  let ?sc = "score_of_fp query threshold"
  let ?xs = "scored_fp query threshold groups"
  have "filter (\<lambda>g. ?sc g = s) (map fst (sort_reverse ?xs))
      = map fst (filter (\<lambda>x. ?sc (fst x) = s) (sort_reverse ?xs))"
    by (simp add: filter_map comp_def)
  also have "filter (\<lambda>x. ?sc (fst x) = s) (sort_reverse ?xs) = filter (\<lambda>x. snd x = s) (sort_reverse ?xs)"
    by (rule filter_cong) (simp_all add: scored_fp_snd)
  also have "\<dots> = filter (\<lambda>x. snd x = s) ?xs"
    by (rule filter_sort_reverse)
  also have "\<dots> = filter (\<lambda>x. ?sc (fst x) = s) ?xs"
    by (rule filter_cong) (simp_all add: scored_fp_snd)
  also have "map fst \<dots> = filter (\<lambda>g. ?sc g = s) (map fst ?xs)"
    by (simp add: filter_map comp_def)
  also have "\<dots> = filter (\<lambda>g. ?sc g = s \<and> 0 < s) groups"
    unfolding map_fst_scored_fp by (auto intro: filter_cong)
  finally show ?thesis .
qed

text \<open>Rounding at work. For the query \<^verbatim>\<open>"abcde"\<close> and threshold 0.75, a description at
  distance 3 of 7 scores \<open>(1 - 3/7) * 0.7\<close>, in doubles 0.39999999999999997, and a name at
  distance 3 of 5 scores \<open>1 - 3/5\<close>, in doubles 0.4: the second group goes first, where
  exact arithmetic has a tie at 2/5.\<close>

lemma total_score_fp_rounding:
  "total_score_fp ''abcde'' (3 / 4) \<lparr>gid = 1, name = ''q'', description = Some ''abcdxyz''\<rparr>
     = Some (7205759403792793 / 18014398509481984) \<and>
   total_score_fp ''abcde'' (3 / 4) \<lparr>gid = 2, name = ''abxyz'', description = None\<rparr>
     = Some (3602879701896397 / 9007199254740992)"
  by code_simp

lemma fuzzy_search_fp_rounding:
  "fuzzy_search_fp ''abcde''
     [\<lparr>gid = 1, name = ''q'', description = Some ''abcdxyz''\<rparr>,
      \<lparr>gid = 2, name = ''abxyz'', description = None\<rparr>] (3 / 4)
   = Some [\<lparr>gid = 2, name = ''abxyz'', description = None\<rparr>,
           \<lparr>gid = 1, name = ''q'', description = Some ''abcdxyz''\<rparr>]"
  by code_simp

lemma fuzzy_search_fp_rounding2:
  "fuzzy_search_fp ''abcdefghijkl''
     [\<lparr>gid = 1, name = ''abcdefgvwxyz'', description = None\<rparr>,
      \<lparr>gid = 2, name = ''q'', description = Some ''abcdefghijyz''\<rparr>] (1 / 2)
   = Some [\<lparr>gid = 2, name = ''q'', description = Some ''abcdefghijyz''\<rparr>,
           \<lparr>gid = 1, name = ''abcdefgvwxyz'', description = None\<rparr>]"
  by code_simp

text \<open>C3: for every query, threshold and list of groups, \<^verbatim>\<open>fuzzy_search\<close> returns a list
  sorted by score in descending order, and for each score \<open>s\<close> the returned groups of
  score \<open>s\<close> are the groups of the input of that score (when it is positive), in the
  order of the input: ties keep their relative input order. The scores are the doubles the
  code computes.\<close>

theorem fuzzy_search_sorted_stable:
  "\<exists>out. fuzzy_search_fp query groups threshold = Some out \<and>
     sorted_wrt (\<lambda>g h. \<exists>a b. total_score_fp query threshold g = Some a \<and>
                          total_score_fp query threshold h = Some b \<and> b \<le> a) out \<and>
     filter (\<lambda>g. total_score_fp query threshold g = Some s) out
       = filter (\<lambda>g. total_score_fp query threshold g = Some s \<and> 0 < s) groups"
proof -
  let ?out = "map fst (sort_reverse (scored_fp query threshold groups))"
  have "sorted_wrt (\<lambda>g h. \<exists>a b. total_score_fp query threshold g = Some a \<and>
                          total_score_fp query threshold h = Some b \<and> b \<le> a) ?out"
    using fuzzy_search_fp_sorted [of query threshold groups]
    by (simp add: total_score_fp_score_of)
  moreover have "filter (\<lambda>g. total_score_fp query threshold g = Some s) ?out
       = filter (\<lambda>g. total_score_fp query threshold g = Some s \<and> 0 < s) groups"
    using fuzzy_search_fp_stable [of query threshold s groups]
    by (simp add: total_score_fp_score_of)
  ultimately show ?thesis
    unfolding fuzzy_search_fp_scored by blast
qed

text \<open>C4: the score of a group is \<^verbatim>\<open>max(name_score, desc_score * 0.7)\<close>, the two being
  \<^verbatim>\<open>fuzzy_match\<close> on the name and on the description (the empty string when it is
  \<^verbatim>\<open>None\<close>), and the product the float product. So a group that matches only on its
  description (name score 0) scores \<^verbatim>\<open>desc_score * 0.7\<close>, which is at most \<^verbatim>\<open>t * 0.7\<close> for
  the score \<open>t\<close> of any group \<open>g'\<close> that carries the same string as its name.\<close>

theorem total_score_max:
  "\<exists>n d. fuzzy_match_fp query (name g) threshold = Some n \<and>
     fuzzy_match_fp query (description_or_empty g) threshold = Some d \<and>
     description_or_empty (g\<lparr>description := None\<rparr>) = [] \<and>
     total_score_fp query threshold g = Some (max n (float_mul d (double (7 / 10)))) \<and>
     (n = 0 \<longrightarrow> total_score_fp query threshold g = Some (float_mul d (double (7 / 10)))) \<and>
     (n = 0 \<and> name g' = description_or_empty g \<longrightarrow>
        (\<exists>t'. total_score_fp query threshold g' = Some t' \<and> d \<le> t' \<and>
           max n (float_mul d (double (7 / 10))) \<le> float_mul t' (double (7 / 10))))"
proof -
  let ?c = "double (7 / 10)"
  obtain n d where nd: "fuzzy_match_fp query (name g) threshold = Some n"
    "fuzzy_match_fp query (description_or_empty g) threshold = Some d"
    "total_score_fp query threshold g = Some (max n (float_mul d ?c))" "0 \<le> d"
    using total_score_fp_total [of query g threshold] by blast
  have nonneg: "0 \<le> float_mul d ?c"
    using nd(4) double_7_10_nonneg by (rule float_mul_nonneg)
  have zero: "total_score_fp query threshold g = Some (float_mul d ?c)" if "n = 0"
    using nd(3) nonneg that by (simp add: max_def)
  have other: "\<exists>t'. total_score_fp query threshold g' = Some t' \<and> d \<le> t' \<and>
      max n (float_mul d ?c) \<le> float_mul t' ?c"
    if "n = 0" "name g' = description_or_empty g"
  proof -
    obtain n' d' where nd': "fuzzy_match_fp query (name g') threshold = Some n'"
      "total_score_fp query threshold g' = Some (max n' (float_mul d' ?c))"
      using total_score_fp_total [of query g' threshold] by blast
    have eq: "n' = d" using nd(2) nd'(1) that(2) by simp
    define t' where "t' = max n' (float_mul d' ?c)"
    have le: "d \<le> t'" by (simp add: t'_def eq)
    have "float_mul d ?c \<le> float_mul t' ?c"
      using nd(4) le double_7_10_nonneg by (rule float_mul_mono)
    then have "max n (float_mul d ?c) \<le> float_mul t' ?c"
      using that(1) nonneg by (simp add: max_def)
    then show ?thesis using nd'(2) le unfolding t'_def by blast
  qed
  have "description_or_empty (g\<lparr>description := None\<rparr>) = []"
    by (simp add: description_or_empty_def)
  then show ?thesis using nd(1,2,3) zero other by blast
qed

theorem total_score_max_witness:
  "fuzzy_match_fp ''helo'' ''zzzzz'' (double (3 / 10)) = Some 0 \<and>
   fuzzy_match_fp ''helo'' ''hello'' (double (3 / 10)) = Some (3602879701896397 / 4503599627370496) \<and>
   total_score_fp ''helo'' (double (3 / 10))
     \<lparr>gid = 1, name = ''zzzzz'', description = Some ''hello''\<rparr>
     = Some (5044031582654955 / 9007199254740992) \<and>
   (\<exists>t'. total_score_fp ''helo'' (double (3 / 10)) \<lparr>gid = 2, name = ''hello'', description = None\<rparr>
        = Some t' \<and>
      5044031582654955 / 9007199254740992 \<le> float_mul t' (double (7 / 10)))"
proof -
  have n: "fuzzy_match_fp ''helo'' ''zzzzz'' (double (3 / 10)) = Some 0"
    by code_simp
  have d: "fuzzy_match_fp ''helo'' ''hello'' (double (3 / 10)) = Some (3602879701896397 / 4503599627370496)"
    by code_simp
  have m: "float_mul (3602879701896397 / 4503599627370496) (double (7 / 10))
      = 5044031582654955 / 9007199254740992"
    by code_simp
  let ?g = "\<lparr>gid = 1, name = ''zzzzz'', description = Some ''hello''\<rparr>"
  let ?g' = "\<lparr>gid = 2, name = ''hello'', description = None\<rparr>"
  let ?v = "3602879701896397 / 4503599627370496 :: real"
  have nm: "name ?g = ''zzzzz''" "description_or_empty ?g = ''hello''" "name ?g' = ''hello''"
    by (simp_all add: description_or_empty_def)
  obtain n0 d0 where w: "fuzzy_match_fp ''helo'' ''zzzzz'' (double (3 / 10)) = Some n0"
    "fuzzy_match_fp ''helo'' ''hello'' (double (3 / 10)) = Some d0"
    "n0 = 0 \<longrightarrow> total_score_fp ''helo'' (double (3 / 10)) ?g = Some (float_mul d0 (double (7 / 10)))"
    "n0 = 0 \<and> name ?g' = description_or_empty ?g \<longrightarrow>
       (\<exists>t'. total_score_fp ''helo'' (double (3 / 10)) ?g' = Some t' \<and> d0 \<le> t' \<and>
          max n0 (float_mul d0 (double (7 / 10))) \<le> float_mul t' (double (7 / 10)))"
    using total_score_max [of "''helo''" ?g "double (3 / 10)" ?g'] unfolding nm by blast
  have n0: "n0 = 0" using w(1) n by simp
  have d0: "d0 = ?v" using w(2) d by simp
  have tot: "total_score_fp ''helo'' (double (3 / 10)) ?g = Some (5044031582654955 / 9007199254740992)"
    using w(3) n0 d0 m by simp
  obtain t' where t': "total_score_fp ''helo'' (double (3 / 10)) ?g' = Some t'"
    "max n0 (float_mul d0 (double (7 / 10))) \<le> float_mul t' (double (7 / 10))"
    using w(4) n0 nm by auto
  have "5044031582654955 / 9007199254740992 \<le> float_mul t' (double (7 / 10))"
    using t'(2) unfolding d0 m n0 by simp
  then show ?thesis using n d tot t'(1) by blast
qed

end
